theory Spec2Isabelle
  imports Main
begin

section \<open>Python strings\<close>

text \<open>
  A Python \<^verbatim>\<open>str\<close> is a sequence of code points. The model is \<^typ>\<open>string\<close>, one
  \<^typ>\<open>char\<close> per code point, which covers the strings whose code points are below 256
  (ASCII and Latin-1). On that range \<^verbatim>\<open>str.lower\<close> maps \<^verbatim>\<open>A-Z\<close> and the
  accented capitals \<^verbatim>\<open>U+00C0-U+00DE\<close> (without the multiplication sign \<^verbatim>\<open>U+00D7\<close>) to
  the code point 32 above, and leaves every other code point alone; \<^verbatim>\<open>str.split()\<close>
  without arguments treats the code points 9-13, 28-32, 133 and 160 as whitespace.
\<close>

definition py_isspace :: "char \<Rightarrow> bool" where
  "py_isspace c =
     (let n = (of_char c :: nat)
      in (9 \<le> n \<and> n \<le> 13) \<or> (28 \<le> n \<and> n \<le> 32) \<or> n = 133 \<or> n = 160)"

definition py_lower_char :: "char \<Rightarrow> char" where
  "py_lower_char c =
     (let n = (of_char c :: nat)
      in if (65 \<le> n \<and> n \<le> 90) \<or> (192 \<le> n \<and> n \<le> 222 \<and> n \<noteq> 215)
         then char_of (n + 32) else c)"

definition py_lower :: "string \<Rightarrow> string" where
  "py_lower s = map py_lower_char s"

text \<open>
  \<^verbatim>\<open>s.split()\<close>: the maximal runs of non-whitespace code points of \<^verbatim>\<open>s\<close>, in order.
  The first argument is the run read so far.
\<close>

fun py_split_from :: "string \<Rightarrow> string \<Rightarrow> string list" where
  "py_split_from w [] = (if w = [] then [] else [w])"
| "py_split_from w (c # cs) =
     (if py_isspace c
      then (if w = [] then py_split_from [] cs else w # py_split_from [] cs)
      else py_split_from (w @ [c]) cs)"

definition py_split :: "string \<Rightarrow> string list" where
  "py_split s = py_split_from [] s"

text \<open>\<^verbatim>\<open>a in b\<close> on strings: \<^verbatim>\<open>a\<close> occurs in \<^verbatim>\<open>b\<close> as a contiguous block.\<close>

fun py_startswith :: "string \<Rightarrow> string \<Rightarrow> bool" where
  "py_startswith b [] = True"
| "py_startswith [] (x # xs) = False"
| "py_startswith (y # ys) (x # xs) = (x = y \<and> py_startswith ys xs)"

fun py_in :: "string \<Rightarrow> string \<Rightarrow> bool" where
  "py_in a [] = (a = [])"
| "py_in a (y # ys) = (py_startswith (y # ys) a \<or> py_in a ys)"

text \<open>\<^verbatim>\<open>set(xs)\<close>, kept as the list of its distinct elements.\<close>

definition py_set :: "'a list \<Rightarrow> 'a list" where
  "py_set xs = remdups xs"

section \<open>Errors and the random generator\<close>

datatype error = KeyError string | IndexError

text \<open>
  \<^verbatim>\<open>random.choice(seq)\<close> raises \<^verbatim>\<open>IndexError\<close> on an empty sequence and returns
  \<^verbatim>\<open>seq[i]\<close> for a drawn index \<^verbatim>\<open>i < len(seq)\<close> otherwise. The generator is the
  sequence of the numbers it will draw; a draw reads the first and moves on.
\<close>

type_synonym rng = "nat \<Rightarrow> nat"

definition random_choice :: "'a list \<Rightarrow> rng \<Rightarrow> error + ('a \<times> rng)" where
  "random_choice seq g =
     (if seq = [] then Inl IndexError
      else Inr (seq ! (g 0 mod length seq), \<lambda>i. g (Suc i)))"

section \<open>The knowledge base and the response tree\<close>

text \<open>
  The knowledge base is the dictionary read from the JSON document: category name to an
  entry, the entry itself a dictionary with the keys \<^verbatim>\<open>keywords\<close> and \<^verbatim>\<open>responses\<close>.
  Both are association lists in the document's order; \<^verbatim>\<open>d[k]\<close> raises \<^verbatim>\<open>KeyError\<close>
  on a missing key.
\<close>

type_synonym entry = "(string \<times> string list) list"
type_synonym knowledge_base = "(string \<times> entry) list"

definition py_getitem :: "(string \<times> 'v) list \<Rightarrow> string \<Rightarrow> error + 'v" where
  "py_getitem d k = (case map_of d k of None \<Rightarrow> Inl (KeyError k) | Some v \<Rightarrow> Inr v)"

datatype node = Node (keyword: string) (response: string) (children: "node list")

record minigpt =
  knowledge_base :: knowledge_base
  root :: node

text \<open>
  \<^verbatim>\<open>_build_response_tree\<close>. The inner loop makes one keyword node per keyword, each
  with its own draw from the category's responses; the outer loop makes one category node
  per item of the knowledge base and appends it to the root's children.
\<close>

fun build_keyword_nodes :: "string list \<Rightarrow> string list \<Rightarrow> rng \<Rightarrow> error + (node list \<times> rng)" where
  "build_keyword_nodes [] responses g = Inr ([], g)"
| "build_keyword_nodes (kw # kws) responses g =
     (case random_choice responses g of
        Inl e \<Rightarrow> Inl e
      | Inr (r, g1) \<Rightarrow>
          (case build_keyword_nodes kws responses g1 of
             Inl e \<Rightarrow> Inl e
           | Inr (ns, g2) \<Rightarrow> Inr (Node kw r [] # ns, g2)))"

definition build_category_node :: "string \<Rightarrow> entry \<Rightarrow> rng \<Rightarrow> error + (node \<times> rng)" where
  "build_category_node category data g =
     (case py_getitem data ''responses'' of
        Inl e \<Rightarrow> Inl e
      | Inr responses \<Rightarrow>
          (case random_choice responses g of
             Inl e \<Rightarrow> Inl e
           | Inr (r, g1) \<Rightarrow>
               (case py_getitem data ''keywords'' of
                  Inl e \<Rightarrow> Inl e
                | Inr kws \<Rightarrow>
                    (case build_keyword_nodes kws responses g1 of
                       Inl e \<Rightarrow> Inl e
                     | Inr (kids, g2) \<Rightarrow> Inr (Node category r kids, g2)))))"

fun build_category_nodes :: "knowledge_base \<Rightarrow> rng \<Rightarrow> error + (node list \<times> rng)" where
  "build_category_nodes [] g = Inr ([], g)"
| "build_category_nodes ((category, data) # items) g =
     (case build_category_node category data g of
        Inl e \<Rightarrow> Inl e
      | Inr (n, g1) \<Rightarrow>
          (case build_category_nodes items g1 of
             Inl e \<Rightarrow> Inl e
           | Inr (ns, g2) \<Rightarrow> Inr (n # ns, g2)))"

definition build_response_tree :: "knowledge_base \<Rightarrow> rng \<Rightarrow> error + (node \<times> rng)" where
  "build_response_tree kb g =
     (case build_category_nodes kb g of
        Inl e \<Rightarrow> Inl e
      | Inr (cs, g1) \<Rightarrow> Inr (Node ''ROOT'' [] cs, g1))"

text \<open>\<^verbatim>\<open>MiniGPT.__init__\<close>, from the knowledge base already read from its file.\<close>

definition minigpt_init :: "knowledge_base \<Rightarrow> rng \<Rightarrow> error + (minigpt \<times> rng)" where
  "minigpt_init kb g =
     (case build_response_tree kb g of
        Inl e \<Rightarrow> Inl e
      | Inr (t, g1) \<Rightarrow> Inr (\<lparr>knowledge_base = kb, root = t\<rparr>, g1))"

section \<open>The matcher\<close>

text \<open>
  The score of a node, as both searches compute it:
  \<^verbatim>\<open>sum(1 for word in query_words if word in node.keyword.lower() or node.keyword.lower() in word)\<close>.
\<close>

definition score :: "string list \<Rightarrow> node \<Rightarrow> nat" where
  "score query_words n =
     sum_list (map (\<lambda>word. 1)
       (filter (\<lambda>word. py_in word (py_lower (keyword n)) \<or> py_in (py_lower (keyword n)) word)
          query_words))"

text \<open>The number of nodes waiting in a queue or stack, with all their descendants.\<close>

fun node_count :: "node \<Rightarrow> nat" where
  "node_count (Node k r cs) = Suc (sum_list (map node_count cs))"

definition pending :: "node list \<Rightarrow> nat" where
  "pending ns = sum_list (map node_count ns)"

text \<open>
  The loop of \<^verbatim>\<open>_bfs_search\<close>: the queue is a deque, \<^verbatim>\<open>popleft\<close> takes its head and
  the children are appended at its end. The result is \<^verbatim>\<open>(best_match, best_score)\<close>.
\<close>

function bfs_loop :: "string list \<Rightarrow> node list \<Rightarrow> node option \<Rightarrow> nat \<Rightarrow> node option \<times> nat" where
  "bfs_loop query_words [] best_match best_score = (best_match, best_score)"
| "bfs_loop query_words (n # queue) best_match best_score =
     (if score query_words n > best_score \<and> response n \<noteq> []
      then bfs_loop query_words (queue @ children n) (Some n) (score query_words n)
      else bfs_loop query_words (queue @ children n) best_match best_score)"
  by pat_completeness auto
termination
proof (relation "measure (\<lambda>(qw, queue, bm, bs). pending queue)")
  show "wf (measure (\<lambda>(qw, queue, bm, bs). pending queue))" by simp
next
  fix query_words :: "string list" and n queue and best_match :: "node option" and best_score :: nat
  have less: "pending (queue @ children n) < pending (n # queue)"
    by (cases n) (simp add: pending_def)
  show "((query_words, queue @ children n, Some n, score query_words n),
         (query_words, n # queue, best_match, best_score))
        \<in> measure (\<lambda>(qw, queue, bm, bs). pending queue)"
    using less by simp
  show "((query_words, queue @ children n, best_match, best_score),
         (query_words, n # queue, best_match, best_score))
        \<in> measure (\<lambda>(qw, queue, bm, bs). pending queue)"
    using less by simp
qed

text \<open>
  The loop of \<^verbatim>\<open>_dfs_search\<close>: the stack is a Python list, \<^verbatim>\<open>pop\<close> takes its last
  element and the children are appended in reversed order.
\<close>

function dfs_loop :: "string list \<Rightarrow> node list \<Rightarrow> node option \<Rightarrow> nat \<Rightarrow> node option \<times> nat" where
  "dfs_loop query_words stack best_match best_score =
     (if stack = [] then (best_match, best_score)
      else
        (let n = last stack; stack1 = butlast stack
         in if score query_words n > best_score \<and> response n \<noteq> []
            then dfs_loop query_words (stack1 @ rev (children n)) (Some n) (score query_words n)
            else dfs_loop query_words (stack1 @ rev (children n)) best_match best_score))"
  by pat_completeness auto
termination
proof (relation "measure (\<lambda>(qw, stack, bm, bs). pending stack)")
  show "wf (measure (\<lambda>(qw, stack, bm, bs). pending stack))" by simp
next
  fix query_words :: "string list" and stack :: "node list" and best_match :: "node option"
    and best_score :: nat and x xa
  assume ne: "stack \<noteq> []" and x: "x = last stack" and xa: "xa = butlast stack"
  have split: "stack = xa @ [x]"
    using ne x xa by simp
  have "pending (xa @ rev (children x)) < pending (xa @ [x])"
    by (cases x) (simp add: pending_def rev_map [symmetric])
  then have less: "pending (xa @ rev (children x)) < pending stack"
    using split by simp
  show "((query_words, xa @ rev (children x), Some x, score query_words x),
         (query_words, stack, best_match, best_score))
        \<in> measure (\<lambda>(qw, stack, bm, bs). pending stack)"
    using less by simp
  show "((query_words, xa @ rev (children x), best_match, best_score),
         (query_words, stack, best_match, best_score))
        \<in> measure (\<lambda>(qw, stack, bm, bs). pending stack)"
    using less by simp
qed

declare dfs_loop.simps [simp del]

text \<open>\<^verbatim>\<open>self.knowledge_base["fallback"]["responses"]\<close>.\<close>

definition fallback_responses :: "minigpt \<Rightarrow> error + string list" where
  "fallback_responses self =
     (case py_getitem (knowledge_base self) ''fallback'' of
        Inl e \<Rightarrow> Inl e
      | Inr data \<Rightarrow> py_getitem data ''responses'')"

text \<open>The two ways a search ends without a match: index 0, or a random draw.\<close>

definition fallback_first :: "minigpt \<Rightarrow> rng \<Rightarrow> error + (string \<times> rng)" where
  "fallback_first self g =
     (case fallback_responses self of
        Inl e \<Rightarrow> Inl e
      | Inr [] \<Rightarrow> Inl IndexError
      | Inr (r # rs) \<Rightarrow> Inr (r, g))"

definition fallback_random :: "minigpt \<Rightarrow> rng \<Rightarrow> error + (string \<times> rng)" where
  "fallback_random self g =
     (case fallback_responses self of
        Inl e \<Rightarrow> Inl e
      | Inr rs \<Rightarrow> random_choice rs g)"

definition bfs_search :: "minigpt \<Rightarrow> string \<Rightarrow> rng \<Rightarrow> error + (string \<times> rng)" where
  "bfs_search self query g =
     (if query = [] then fallback_first self g
      else
        (let query_words = py_set (py_split (py_lower query))
         in case bfs_loop query_words [root self] None 0 of
              (Some best_match, best_score) \<Rightarrow>
                if best_score > 0 then Inr (response best_match, g)
                else fallback_random self g
            | (None, best_score) \<Rightarrow> fallback_random self g))"

definition dfs_search :: "minigpt \<Rightarrow> string \<Rightarrow> rng \<Rightarrow> error + (string \<times> rng)" where
  "dfs_search self query g =
     (if query = [] then fallback_first self g
      else
        (let query_words = py_set (py_split (py_lower query))
         in case dfs_loop query_words [root self] None 0 of
              (Some best_match, best_score) \<Rightarrow>
                if best_score > 0 then Inr (response best_match, g)
                else fallback_random self g
            | (None, best_score) \<Rightarrow> fallback_random self g))"

definition get_response :: "minigpt \<Rightarrow> string \<Rightarrow> rng \<Rightarrow> error + (string \<times> rng)" where
  "get_response self query g =
     (case bfs_search self query g of
        Inl e \<Rightarrow> Inl e
      | Inr (bfs_response, g1) \<Rightarrow>
          (case dfs_search self query g1 of
             Inl e \<Rightarrow> Inl e
           | Inr (dfs_response, g2) \<Rightarrow>
               if length dfs_response > length bfs_response
               then Inr (dfs_response, g2)
               else Inr (bfs_response, g2)))"

section \<open>Notions the properties are stated with\<close>

text \<open>
  What one pass of either loop does with the node it has just taken: the three lines
  \<^verbatim>\<open>if score > best_score and node.response: best_score = score; best_match = node\<close>.
\<close>

definition consider_node :: "string list \<Rightarrow> node option \<times> nat \<Rightarrow> node \<Rightarrow> node option \<times> nat" where
  "consider_node query_words best n =
     (if score query_words n > snd best \<and> response n \<noteq> []
      then (Some n, score query_words n) else best)"

text \<open>
  The nodes in the order in which each loop takes them: the same queue and stack
  discipline as \<^const>\<open>bfs_loop\<close> and \<^const>\<open>dfs_loop\<close>, recording the node instead of
  scoring it.
\<close>

function bfs_order :: "node list \<Rightarrow> node list" where
  "bfs_order [] = []"
| "bfs_order (n # queue) = n # bfs_order (queue @ children n)"
  by pat_completeness auto
termination
proof (relation "measure pending")
  show "wf (measure pending)" by simp
next
  fix n queue
  have "pending (queue @ children n) < pending (n # queue)"
    by (cases n) (simp add: pending_def)
  then show "(queue @ children n, n # queue) \<in> measure pending" by simp
qed

declare bfs_order.simps [simp del]

function dfs_order :: "node list \<Rightarrow> node list" where
  "dfs_order stack =
     (if stack = [] then []
      else last stack # dfs_order (butlast stack @ rev (children (last stack))))"
  by pat_completeness auto
termination
proof (relation "measure pending")
  show "wf (measure pending)" by simp
next
  fix stack :: "node list"
  assume ne: "stack \<noteq> []"
  have split: "stack = butlast stack @ [last stack]"
    using ne by simp
  have "pending (butlast stack @ rev (children (last stack))) < pending (butlast stack @ [last stack])"
    by (cases "last stack") (simp add: pending_def rev_map [symmetric])
  then show "(butlast stack @ rev (children (last stack)), stack) \<in> measure pending"
    using split by simp
qed

declare dfs_order.simps [simp del]

text \<open>Preorder: a node, then the preorder of each child, left to right.\<close>

fun preorder :: "node \<Rightarrow> node list" where
  "preorder (Node k r cs) = Node k r cs # concat (map preorder cs)"

text \<open>
  The best score a sequence of visited nodes offers: the greatest score of a node with a
  non-empty response, 0 when there is none. The earliest best is the first node of the
  sequence with a non-empty response and that score, when the score is above 0.
\<close>

definition top_score :: "string list \<Rightarrow> node list \<Rightarrow> nat" where
  "top_score query_words visited =
     Max (insert 0 (score query_words ` set (filter (\<lambda>n. response n \<noteq> []) visited)))"

definition earliest_best :: "string list \<Rightarrow> node list \<Rightarrow> node option \<times> nat" where
  "earliest_best query_words visited =
     (let m = top_score query_words visited
      in if m = 0 then (None, 0)
         else (Some (hd (filter (\<lambda>n. response n \<noteq> [] \<and> score query_words n = m) visited)), m))"

text \<open>Substring containment, as a property: \<open>a\<close> lies in \<open>b\<close> between a prefix and a suffix.\<close>

definition occurs_in :: "string \<Rightarrow> string \<Rightarrow> bool" where
  "occurs_in a b = (\<exists>p s. b = p @ a @ s)"

text \<open>
  The knowledge bases the data model admits: every entry has its \<^verbatim>\<open>keywords\<close> and at
  least one response.
\<close>

definition entry_ok :: "entry \<Rightarrow> bool" where
  "entry_ok data =
     (case (map_of data ''keywords'', map_of data ''responses'') of
        (Some kws, Some rs) \<Rightarrow> rs \<noteq> []
      | _ \<Rightarrow> False)"

definition kb_ok :: "knowledge_base \<Rightarrow> bool" where
  "kb_ok kb = list_all (\<lambda>item. entry_ok (snd item)) kb"

text \<open>What a caller sees of a result: the value or the error, without the generator.\<close>

definition outcome :: "error + ('a \<times> rng) \<Rightarrow> error + 'a" where
  "outcome res = map_sum id fst res"

text \<open>A generator that draws the same number every time.\<close>

definition const_rng :: "nat \<Rightarrow> rng" where
  "const_rng k = (\<lambda>i. k)"

text \<open>The knowledge base of the end-to-end scenario, and one with two fallback responses.\<close>

definition scenario_kb :: knowledge_base where
  "scenario_kb =
     [(''greeting'', [(''keywords'', [''hello'', ''hi'']), (''responses'', [''Hi there!''])]),
      (''fallback'', [(''keywords'', []), (''responses'', [''I do not understand.''])])]"

definition scenario_tree :: node where
  "scenario_tree =
     Node ''ROOT'' []
       [Node ''greeting'' ''Hi there!'' [Node ''hello'' ''Hi there!'' [], Node ''hi'' ''Hi there!'' []],
        Node ''fallback'' ''I do not understand.'' []]"

definition scenario_bot :: minigpt where
  "scenario_bot = \<lparr>knowledge_base = scenario_kb, root = scenario_tree\<rparr>"

definition two_fallbacks_kb :: knowledge_base where
  "two_fallbacks_kb =
     [(''greeting'', [(''keywords'', [''hello'']), (''responses'', [''Hi there!''])]),
      (''fallback'', [(''keywords'', []), (''responses'', [''Sorry?'', ''Say that again.''])])]"

definition two_fallbacks_bot :: minigpt where
  "two_fallbacks_bot =
     \<lparr>knowledge_base = two_fallbacks_kb,
      root = Node ''ROOT'' []
        [Node ''greeting'' ''Hi there!'' [Node ''hello'' ''Hi there!'' []],
         Node ''fallback'' ''Sorry?'' []]\<rparr>"

text \<open>
  A knowledge base where a keyword of one category is the name of a later category, so
  that the two searches meet two nodes of equal score in different orders.
\<close>

definition tie_kb :: knowledge_base where
  "tie_kb =
     [(''pets'', [(''keywords'', [''cat'']), (''responses'', [''Cats are great companions.''])]),
      (''cat'', [(''keywords'', []), (''responses'', [''Meow.''])]),
      (''fallback'', [(''keywords'', []), (''responses'', [''Sorry?''])])]"

definition tie_bot :: minigpt where
  "tie_bot =
     \<lparr>knowledge_base = tie_kb,
      root = Node ''ROOT'' []
        [Node ''pets'' ''Cats are great companions.'' [Node ''cat'' ''Cats are great companions.'' []],
         Node ''cat'' ''Meow.'' [],
         Node ''fallback'' ''Sorry?'' []]\<rparr>"

section \<open>Strings and scores\<close>

lemma py_startswith_iff: "py_startswith b a \<longleftrightarrow> (\<exists>s. b = a @ s)"
  by (induction b a rule: py_startswith.induct) auto

lemma py_in_iff: "py_in a b \<longleftrightarrow> occurs_in a b"
proof (induction b)
  case Nil
  show ?case by (simp add: occurs_in_def)
next
  case (Cons y ys)
  have "occurs_in a (y # ys) \<longleftrightarrow> (\<exists>s. y # ys = a @ s) \<or> occurs_in a ys"
  proof
    assume "occurs_in a (y # ys)"
    then obtain p s where eq: "y # ys = p @ a @ s" by (auto simp: occurs_in_def)
    show "(\<exists>s. y # ys = a @ s) \<or> occurs_in a ys"
    proof (cases p)
      case Nil
      with eq show ?thesis by auto
    next
      case (Cons z zs)
      with eq have "ys = zs @ a @ s" by simp
      then show ?thesis by (auto simp: occurs_in_def)
    qed
  next
    assume "(\<exists>s. y # ys = a @ s) \<or> occurs_in a ys"
    then show "occurs_in a (y # ys)"
    proof
      assume "\<exists>s. y # ys = a @ s"
      then obtain s where "y # ys = [] @ a @ s" by auto
      then show ?thesis unfolding occurs_in_def by blast
    next
      assume "occurs_in a ys"
      then obtain p s where "ys = p @ a @ s" by (auto simp: occurs_in_def)
      then have "y # ys = (y # p) @ a @ s" by simp
      then show ?thesis unfolding occurs_in_def by blast
    qed
  qed
  with Cons show ?case by (simp add: py_startswith_iff)
qed

lemma sum_ones: "sum_list (map (\<lambda>x. Suc 0) xs) = length xs"
  by (induction xs) auto

lemma score_length: "score qw n = length (filter (\<lambda>w. py_in w (py_lower (keyword n)) \<or> py_in (py_lower (keyword n)) w) qw)"
  by (simp add: score_def sum_ones)

lemma bfs_loop_fold: "bfs_loop qw queue bm bs = foldl (consider_node qw) (bm, bs) (bfs_order queue)"
  by (induction qw queue bm bs rule: bfs_loop.induct)
    (simp_all add: consider_node_def bfs_order.simps)

lemma dfs_loop_fold: "dfs_loop qw stack bm bs = foldl (consider_node qw) (bm, bs) (dfs_order stack)"
proof (induction qw stack bm bs rule: dfs_loop.induct)
  case (1 qw stack bm bs)
  show ?case
  proof (cases "stack = []")
    case True
    then show ?thesis by (simp add: dfs_loop.simps dfs_order.simps)
  next
    case False
    let ?n = "last stack" and ?rest = "butlast stack @ rev (children (last stack))"
    have ord: "dfs_order stack = ?n # dfs_order ?rest"
      using False by (subst dfs_order.simps) simp
    show ?thesis
    proof (cases "score qw ?n > bs \<and> response ?n \<noteq> []")
      case True
      have step: "dfs_loop qw stack bm bs = dfs_loop qw ?rest (Some ?n) (score qw ?n)"
        using False True by (subst dfs_loop.simps) (simp add: Let_def)
      have c: "consider_node qw (bm, bs) ?n = (Some ?n, score qw ?n)"
        using True by (simp add: consider_node_def)
      show ?thesis
        using 1(1) [OF False refl refl True] by (simp only: step ord c foldl_Cons)
    next
      case no: False
      have step: "dfs_loop qw stack bm bs = dfs_loop qw ?rest bm bs"
        using False no by (subst dfs_loop.simps) (auto simp add: Let_def)
      have c: "consider_node qw (bm, bs) ?n = (bm, bs)"
        using no by (auto simp add: consider_node_def)
      show ?thesis
        using 1(2) [OF False refl refl no] by (simp only: step ord c foldl_Cons)
    qed
  qed
qed

lemma preorder_unfold: "preorder n = n # concat (map preorder (children n))"
  by (cases n) simp

lemma dfs_order_forest: "dfs_order stack = concat (map preorder (rev stack))"
proof (induction stack rule: dfs_order.induct)
  case (1 stack)
  show ?case
  proof (cases "stack = []")
    case True
    then show ?thesis by (simp add: dfs_order.simps)
  next
    case False
    then have split: "stack = butlast stack @ [last stack]" by simp
    have "dfs_order stack = last stack # dfs_order (butlast stack @ rev (children (last stack)))"
      using False by (subst dfs_order.simps) simp
    also have "\<dots> = last stack # concat (map preorder (children (last stack))) @ concat (map preorder (rev (butlast stack)))"
      using 1 [OF False] by simp
    also have "\<dots> = preorder (last stack) @ concat (map preorder (rev (butlast stack)))"
      using preorder_unfold [of "last stack"] by simp
    also have "\<dots> = concat (map preorder (rev (butlast stack @ [last stack])))"
      by simp
    finally show ?thesis using split by simp
  qed
qed

lemma set_bfs_order: "set (bfs_order queue) = (\<Union>n \<in> set queue. set (preorder n))"
proof (induction queue rule: bfs_order.induct)
  case 1
  show ?case by (simp add: bfs_order.simps)
next
  case (2 n queue)
  have "set (preorder n) = insert n (\<Union>c \<in> set (children n). set (preorder c))"
    by (subst preorder_unfold) simp
  with 2 show ?case by (auto simp: bfs_order.simps)
qed

section \<open>The best match of a visit sequence\<close>

lemma top_score_snoc:
  "top_score qw (vs @ [x]) =
     (if response x \<noteq> [] then max (score qw x) (top_score qw vs) else top_score qw vs)"
proof (cases "response x \<noteq> []")
  case True
  let ?S = "insert 0 (score qw ` set (filter (\<lambda>n. response n \<noteq> []) vs))"
  have "insert 0 (score qw ` set (filter (\<lambda>n. response n \<noteq> []) (vs @ [x]))) = insert (score qw x) ?S"
    using True by auto
  moreover have "Max (insert (score qw x) ?S) = max (score qw x) (Max ?S)"
    by (rule Max_insert) auto
  ultimately show ?thesis using True by (simp add: top_score_def)
next
  case False
  then show ?thesis by (simp add: top_score_def)
qed

lemma top_score_ge: "n \<in> set vs \<Longrightarrow> response n \<noteq> [] \<Longrightarrow> score qw n \<le> top_score qw vs"
  unfolding top_score_def by (rule Max_ge) auto

lemma top_score_attained:
  assumes "0 < top_score qw vs"
  shows "\<exists>n \<in> set vs. response n \<noteq> [] \<and> score qw n = top_score qw vs"
proof -
  let ?S = "insert 0 (score qw ` set (filter (\<lambda>n. response n \<noteq> []) vs))"
  have "Max ?S \<in> ?S" by (rule Max_in) auto
  with assms show ?thesis unfolding top_score_def by auto
qed

lemma snd_earliest_best: "snd (earliest_best qw vs) = top_score qw vs"
  by (simp add: earliest_best_def Let_def)

lemma earliest_best_snoc:
  "earliest_best qw (vs @ [x]) = consider_node qw (earliest_best qw vs) x"
proof (cases "score qw x > top_score qw vs \<and> response x \<noteq> []")
  case True
  then have top: "top_score qw (vs @ [x]) = score qw x"
    by (simp add: top_score_snoc)
  have "filter (\<lambda>n. response n \<noteq> [] \<and> score qw n = score qw x) vs = []"
    using True top_score_ge [of _ vs qw] by (fastforce simp: filter_empty_conv)
  then have "earliest_best qw (vs @ [x]) = (Some x, score qw x)"
    using True by (simp add: earliest_best_def top)
  then show ?thesis
    using True by (simp add: consider_node_def snd_earliest_best)
next
  case False
  then have top: "top_score qw (vs @ [x]) = top_score qw vs"
    by (auto simp add: top_score_snoc)
  have "earliest_best qw (vs @ [x]) = earliest_best qw vs"
  proof (cases "top_score qw vs = 0")
    case True
    then show ?thesis by (simp add: earliest_best_def top)
  next
    case pos: False
    then obtain n where "n \<in> set vs" "response n \<noteq> []" "score qw n = top_score qw vs"
      using top_score_attained [of qw vs] by auto
    then have "filter (\<lambda>n. response n \<noteq> [] \<and> score qw n = top_score qw vs) vs \<noteq> []"
      by (auto simp: filter_empty_conv)
    then have "hd (filter (\<lambda>n. response n \<noteq> [] \<and> score qw n = top_score qw vs) (vs @ [x])) =
               hd (filter (\<lambda>n. response n \<noteq> [] \<and> score qw n = top_score qw vs) vs)"
      by (simp add: hd_append)
    then show ?thesis by (simp add: earliest_best_def top Let_def)
  qed
  then show ?thesis
    using False by (auto simp add: consider_node_def snd_earliest_best)
qed

lemma fold_earliest: "foldl (consider_node qw) (None, 0) vs = earliest_best qw vs"
proof (induction vs rule: rev_induct)
  case Nil
  show ?case by (simp add: earliest_best_def top_score_def)
next
  case (snoc x vs)
  then show ?case by (simp add: earliest_best_snoc)
qed

lemma earliest_best_unique:
  assumes n: "n \<in> set vs" and r: "response n \<noteq> []" and pos: "0 < score qw n"
    and uniq: "\<forall>m \<in> set vs. m \<noteq> n \<longrightarrow> score qw m < score qw n"
  shows "earliest_best qw vs = (Some n, score qw n)"
proof -
  have le: "top_score qw vs \<le> score qw n"
  proof -
    obtain k where "k \<in> set vs \<and> score qw k = top_score qw vs \<or> top_score qw vs = 0"
      using top_score_attained [of qw vs] by (cases "top_score qw vs = 0") auto
    then show ?thesis using uniq by (cases "k = n") (auto simp: less_imp_le)
  qed
  have top: "top_score qw vs = score qw n"
    using le top_score_ge [OF n r, of qw] by simp
  have "filter (\<lambda>k. response k \<noteq> [] \<and> score qw k = score qw n) vs = filter (\<lambda>k. k = n) vs"
    using uniq r by (intro filter_cong) auto
  moreover have "hd (filter (\<lambda>k. k = n) vs) = n"
    using n by (induction vs) auto
  ultimately show ?thesis using pos by (simp add: earliest_best_def top)
qed

lemma earliest_best_Some:
  assumes "earliest_best qw vs = (Some n, s)"
  shows "n \<in> set vs \<and> response n \<noteq> [] \<and> score qw n = s \<and> 0 < s"
proof -
  from assms have pos: "top_score qw vs \<noteq> 0" and s: "s = top_score qw vs"
    and n: "n = hd (filter (\<lambda>k. response k \<noteq> [] \<and> score qw k = top_score qw vs) vs)"
    by (auto simp: earliest_best_def Let_def split: if_splits)
  let ?f = "filter (\<lambda>k. response k \<noteq> [] \<and> score qw k = top_score qw vs) vs"
  have "?f \<noteq> []"
    using top_score_attained [of qw vs] pos by (auto simp: filter_empty_conv)
  then have "hd ?f \<in> set ?f" by (rule hd_in_set)
  then have "hd ?f \<in> {k \<in> set vs. response k \<noteq> [] \<and> score qw k = top_score qw vs}"
    by (simp only: set_filter)
  then have "hd ?f \<in> set vs \<and> response (hd ?f) \<noteq> [] \<and> score qw (hd ?f) = top_score qw vs"
    by blast
  then show ?thesis using n s pos by simp
qed

lemma earliest_best_None: "fst (earliest_best qw vs) = None \<longleftrightarrow> top_score qw vs = 0"
  by (simp add: earliest_best_def Let_def)

lemma top_score_set: "set vs = set ws \<Longrightarrow> top_score qw vs = top_score qw ws"
  by (simp add: top_score_def)

lemma bfs_order_root: "set (bfs_order [t]) = set (preorder t)"
  by (simp add: set_bfs_order)

lemma dfs_order_root: "dfs_order [t] = preorder t"
  by (simp add: dfs_order_forest)

lemma bfs_loop_best: "bfs_loop qw [t] None 0 = earliest_best qw (bfs_order [t])"
  by (simp only: bfs_loop_fold fold_earliest)

lemma dfs_loop_best: "dfs_loop qw [t] None 0 = earliest_best qw (preorder t)"
  by (simp add: dfs_loop_fold fold_earliest dfs_order_root)

lemma search_result:
  assumes "best = earliest_best qw vs"
  shows "(case best of
            (Some best_match, best_score) \<Rightarrow>
              if best_score > 0 then Inr (response best_match, g) else fallback_random self g
          | (None, best_score) \<Rightarrow> fallback_random self g) =
         (if top_score qw vs = 0 then fallback_random self g
          else Inr (response (hd (filter (\<lambda>n. response n \<noteq> [] \<and> score qw n = top_score qw vs) vs)), g))"
  using assms by (simp add: earliest_best_def Let_def)

lemma bfs_search_nonempty:
  assumes "query \<noteq> []"
  shows "bfs_search self query g =
     (let qw = py_set (py_split (py_lower query)); vs = bfs_order [root self]
      in if top_score qw vs = 0 then fallback_random self g
         else Inr (response (hd (filter (\<lambda>n. response n \<noteq> [] \<and> score qw n = top_score qw vs) vs)), g))"
  using assms search_result [OF bfs_loop_best]
  by (simp add: bfs_search_def Let_def)

lemma dfs_search_nonempty:
  assumes "query \<noteq> []"
  shows "dfs_search self query g =
     (let qw = py_set (py_split (py_lower query)); vs = preorder (root self)
      in if top_score qw vs = 0 then fallback_random self g
         else Inr (response (hd (filter (\<lambda>n. response n \<noteq> [] \<and> score qw n = top_score qw vs) vs)), g))"
  using assms search_result [OF dfs_loop_best]
  by (simp add: dfs_search_def Let_def)

lemma best_response:
  assumes "top_score qw vs \<noteq> 0"
  shows "\<exists>n \<in> set vs. response n \<noteq> [] \<and> score qw n = top_score qw vs \<and>
           hd (filter (\<lambda>n. response n \<noteq> [] \<and> score qw n = top_score qw vs) vs) = n"
proof -
  obtain n s where e: "earliest_best qw vs = (Some n, s)"
    using assms by (simp add: earliest_best_def Let_def)
  from earliest_best_Some [OF e] e assms show ?thesis
    by (auto simp: earliest_best_def Let_def)
qed

section \<open>Building never fails on a well-formed knowledge base\<close>

lemma random_choice_member:
  "seq \<noteq> [] \<Longrightarrow> \<exists>r g1. random_choice seq g = Inr (r, g1) \<and> r \<in> set seq"
  by (simp add: random_choice_def)

lemma build_keyword_nodes_ok:
  "responses \<noteq> [] \<Longrightarrow>
     \<exists>ns g1. build_keyword_nodes kws responses g = Inr (ns, g1) \<and> map keyword ns = kws"
proof (induction kws arbitrary: g)
  case Nil
  show ?case by simp
next
  case (Cons kw kws)
  obtain r g1 where r: "random_choice responses g = Inr (r, g1)"
    using random_choice_member [OF Cons.prems] by blast
  obtain ns g2 where ns: "build_keyword_nodes kws responses g1 = Inr (ns, g2)" "map keyword ns = kws"
    using Cons.IH [OF Cons.prems] by blast
  show ?case by (simp add: r ns)
qed

lemma build_category_node_ok:
  assumes "entry_ok data"
  shows "\<exists>n g1. build_category_node category data g = Inr (n, g1) \<and> keyword n = category"
proof -
  obtain kws rs where kws: "map_of data ''keywords'' = Some kws"
    and rs: "map_of data ''responses'' = Some rs" and ne: "rs \<noteq> []"
    using assms by (auto simp: entry_ok_def split: option.splits)
  obtain r g1 where r: "random_choice rs g = Inr (r, g1)"
    using random_choice_member [OF ne] by blast
  obtain ns g2 where ns: "build_keyword_nodes kws rs g1 = Inr (ns, g2)"
    using build_keyword_nodes_ok [OF ne] by blast
  show ?thesis by (simp add: build_category_node_def py_getitem_def kws rs r ns)
qed

lemma build_category_nodes_ok:
  "kb_ok kb \<Longrightarrow>
     \<exists>ns g1. build_category_nodes kb g = Inr (ns, g1) \<and> map keyword ns = map fst kb"
proof (induction kb arbitrary: g)
  case Nil
  show ?case by simp
next
  case (Cons item kb)
  obtain category data where item: "item = (category, data)" by (cases item)
  from Cons.prems item have ok: "entry_ok data" and rest: "kb_ok kb"
    by (simp_all add: kb_ok_def)
  obtain n g1 where n: "build_category_node category data g = Inr (n, g1)" "keyword n = category"
    using build_category_node_ok [OF ok] by blast
  obtain ns g2 where ns: "build_category_nodes kb g1 = Inr (ns, g2)" "map keyword ns = map fst kb"
    using Cons.IH [OF rest] by blast
  show ?case by (simp add: item n ns)
qed

lemma count_distinct:
  "distinct xs \<Longrightarrow> length (filter (\<lambda>x. x = c) xs) = (if c \<in> set xs then 1 else 0)"
  by (induction xs) auto

section \<open>Tokens, fallback draws and the worked examples\<close>

lemma py_split_from_tokens:
  "w \<in> set (py_split_from acc s) \<Longrightarrow> \<forall>c \<in> set acc. \<not> py_isspace c \<Longrightarrow>
     w \<noteq> [] \<and> (\<forall>c \<in> set w. \<not> py_isspace c)"
proof (induction acc s rule: py_split_from.induct)
  case (1 acc)
  then show ?case by (cases "acc = []") simp_all
next
  case (2 acc c cs)
  show ?case
  proof (cases "py_isspace c")
    case True
    show ?thesis
    proof (cases "acc = []")
      case e: True
      from "2.prems"(1) True e have "w \<in> set (py_split_from [] cs)" by simp
      then show ?thesis using "2.IH"(1) [OF True e] by simp
    next
      case ne: False
      from "2.prems"(1) True ne have "w = acc \<or> w \<in> set (py_split_from [] cs)" by simp
      then show ?thesis
      proof
        assume "w = acc"
        then show ?thesis using ne "2.prems"(2) by simp
      next
        assume "w \<in> set (py_split_from [] cs)"
        then show ?thesis using "2.IH"(2) [OF True ne] by simp
      qed
    qed
  next
    case False
    from "2.prems"(1) False have "w \<in> set (py_split_from (acc @ [c]) cs)" by simp
    moreover have "\<forall>d \<in> set (acc @ [c]). \<not> py_isspace d"
      using "2.prems"(2) False by simp
    ultimately show ?thesis using "2.IH"(3) [OF False] by blast
  qed
qed

lemma py_split_tokens:
  "w \<in> set (py_split s) \<Longrightarrow> w \<noteq> [] \<and> (\<forall>c \<in> set w. \<not> py_isspace c)"
  using py_split_from_tokens [of w "[]" s] by (simp add: py_split_def)

lemma py_lower_char_idem: "py_lower_char (py_lower_char c) = py_lower_char c"
proof -
  let ?n = "of_char c :: nat"
  show ?thesis
  proof (cases "(65 \<le> ?n \<and> ?n \<le> 90) \<or> (192 \<le> ?n \<and> ?n \<le> 222 \<and> ?n \<noteq> 215)")
    case True
    then have low: "py_lower_char c = char_of (?n + 32)"
      by (simp add: py_lower_char_def Let_def)
    have "(of_char (char_of (?n + 32) :: char) :: nat) = (?n + 32) mod 256"
      by (rule of_char_of)
    also have "\<dots> = ?n + 32" using True by auto
    finally have code: "(of_char (char_of (?n + 32) :: char) :: nat) = ?n + 32" .
    have "py_lower_char (char_of (?n + 32)) = char_of (?n + 32)"
      using True unfolding py_lower_char_def Let_def code by auto
    then show ?thesis by (simp only: low)
  next
    case False
    then have "py_lower_char c = c"
      by (auto simp add: py_lower_char_def Let_def)
    then show ?thesis by simp
  qed
qed

lemma py_split_from_chars:
  "w \<in> set (py_split_from acc s) \<Longrightarrow> set w \<subseteq> set acc \<union> set s"
proof (induction acc s rule: py_split_from.induct)
  case (1 acc)
  then show ?case by (cases "acc = []") simp_all
next
  case (2 acc c cs)
  show ?case
  proof (cases "py_isspace c")
    case True
    show ?thesis
    proof (cases "acc = []")
      case e: True
      from "2.prems" True e have "w \<in> set (py_split_from [] cs)" by simp
      then show ?thesis using "2.IH"(1) [OF True e] by auto
    next
      case ne: False
      from "2.prems" True ne have "w = acc \<or> w \<in> set (py_split_from [] cs)" by simp
      then show ?thesis using "2.IH"(2) [OF True ne] by auto
    qed
  next
    case False
    from "2.prems" False have "w \<in> set (py_split_from (acc @ [c]) cs)" by simp
    then show ?thesis using "2.IH"(3) [OF False] by auto
  qed
qed

lemma query_tokens_shape:
  assumes "w \<in> set (py_set (py_split (py_lower query)))"
  shows "w \<noteq> [] \<and> (\<forall>c \<in> set w. \<not> py_isspace c) \<and> py_lower w = w"
proof -
  from assms have w: "w \<in> set (py_split (py_lower query))"
    by (simp add: py_set_def)
  then have "set w \<subseteq> set (py_lower query)"
    using py_split_from_chars [of w "[]" "py_lower query"] by (simp add: py_split_def)
  then have "\<forall>c \<in> set w. py_lower_char c = c"
    by (auto simp: py_lower_def py_lower_char_idem)
  then have "py_lower w = w"
    by (simp add: py_lower_def map_idI)
  then show ?thesis using py_split_tokens [OF w] by simp
qed

lemma fallback_responses_root [simp]: "fallback_responses (self\<lparr>root := t\<rparr>) = fallback_responses self"
  by (simp add: fallback_responses_def)

lemma fallback_random_member:
  assumes "fallback_responses self = Inr pool" and "pool \<noteq> []"
  shows "fallback_random self g = Inr (pool ! (g 0 mod length pool), \<lambda>i. g (Suc i))"
    and "pool ! (g 0 mod length pool) \<in> set pool"
  using assms by (simp_all add: fallback_random_def random_choice_def)

lemma search_cases:
  assumes pool: "fallback_responses self = Inr pool" "pool \<noteq> []"
    and res: "res = (if top_score qw vs = 0 then fallback_random self g
         else Inr (response (hd (filter (\<lambda>n. response n \<noteq> [] \<and> score qw n = top_score qw vs) vs)), g))"
  shows "\<exists>s g1. res = Inr (s, g1) \<and>
           ((\<exists>n \<in> set vs. response n \<noteq> [] \<and> s = response n) \<or> s \<in> set pool)"
proof (cases "top_score qw vs = 0")
  case True
  then show ?thesis
    using res fallback_random_member [OF pool, of g] by simp
next
  case False
  from best_response [OF False] obtain n where
    "n \<in> set vs" "response n \<noteq> []"
    "hd (filter (\<lambda>n. response n \<noteq> [] \<and> score qw n = top_score qw vs) vs) = n"
    by blast
  then show ?thesis using res False by auto
qed

lemma fallback_first_outcome: "outcome (fallback_first self g1) = outcome (fallback_first self g2)"
  by (simp add: fallback_first_def outcome_def split: sum.splits list.splits)

lemma top_score_pos:
  assumes "n \<in> set vs" "response n \<noteq> []" "0 < score qw n"
  shows "top_score qw vs \<noteq> 0"
  using top_score_ge [OF assms(1,2), of qw] assms(3) by simp

lemma tie_bot_built: "outcome (minigpt_init tie_kb (const_rng 0)) = Inr tie_bot"
  by code_simp

lemma tie_example:
  "outcome (bfs_search tie_bot ''cat'' (const_rng 0)) = Inr ''Meow.'' \<and>
   outcome (dfs_search tie_bot ''cat'' (const_rng 0)) = Inr ''Cats are great companions.'' \<and>
   outcome (get_response tie_bot ''cat'' (const_rng 0)) = Inr ''Cats are great companions.''"
  by code_simp

lemma py_lower_char_space: "py_isspace c \<Longrightarrow> py_lower_char c = c"
  by (auto simp: py_isspace_def py_lower_char_def Let_def)

lemma py_lower_spaces: "\<forall>c \<in> set s. py_isspace c \<Longrightarrow> py_lower s = s"
  by (simp add: py_lower_def py_lower_char_space map_idI)

lemma py_split_spaces: "\<forall>c \<in> set s. py_isspace c \<Longrightarrow> py_split_from [] s = []"
  by (induction s) simp_all

lemma score_no_words: "score [] n = 0"
  by (simp add: score_def)

lemma top_score_no_words: "top_score [] vs = 0"
proof (rule ccontr)
  assume "top_score [] vs \<noteq> 0"
  then have pos: "0 < top_score [] vs" by simp
  from top_score_attained [OF pos] obtain n where "score [] n = top_score [] vs" by blast
  with pos show False by (simp add: score_no_words)
qed

section \<open>The response tree builder\<close>

text \<open>
  C1, as the code has it. For every knowledge base of the data model (distinct category
  names, every entry with its keywords and at least one response) the build returns a tree
  whose root is labelled \<^verbatim>\<open>ROOT\<close> and whose children are the category nodes, one per
  category and in the knowledge base's order: every name, \<^verbatim>\<open>fallback\<close> included, labels
  exactly one child of the root when it is a category, and none otherwise.
\<close>

theorem build_response_tree_categories:
  assumes "kb_ok kb" and "distinct (map fst kb)"
  shows "\<exists>t g1. build_response_tree kb g = Inr (t, g1) \<and> keyword t = ''ROOT'' \<and>
           map keyword (children t) = map fst kb \<and>
           (\<forall>category. length (filter (\<lambda>n. keyword n = category) (children t)) =
              (if category \<in> fst ` set kb then 1 else 0))"
proof -
  obtain ns g1 where ns: "build_category_nodes kb g = Inr (ns, g1)" "map keyword ns = map fst kb"
    using build_category_nodes_ok [OF assms(1)] by blast
  have "length (filter (\<lambda>n. keyword n = category) ns) = (if category \<in> fst ` set kb then 1 else 0)"
    for category
  proof -
    have "length (filter (\<lambda>n. keyword n = category) ns) =
          length (filter (\<lambda>x. x = category) (map keyword ns))"
      by (simp add: filter_map comp_def)
    then show ?thesis
      using count_distinct [OF assms(2), of category] by (simp add: ns)
  qed
  then show ?thesis by (simp add: build_response_tree_def ns)
qed

theorem build_response_tree_categories_witness:
  "kb_ok scenario_kb \<and> distinct (map fst scenario_kb) \<and>
   (\<exists>t g1. build_response_tree scenario_kb (const_rng 0) = Inr (t, g1) \<and> keyword t = ''ROOT'' \<and>
      map keyword (children t) = map fst scenario_kb \<and>
      (\<forall>category. length (filter (\<lambda>n. keyword n = category) (children t)) =
         (if category \<in> fst ` set scenario_kb then 1 else 0)))"
proof -
  have ok: "kb_ok scenario_kb" by code_simp
  have d: "distinct (map fst scenario_kb)" by code_simp
  show ?thesis
    using ok d build_response_tree_categories [OF ok d, of "const_rng 0"] by blast
qed

text \<open>
  Against C1 as the specification words it: the loop of \<^verbatim>\<open>_build_response_tree\<close>
  does not skip \<^verbatim>\<open>fallback\<close>. On the scenario's
  knowledge base the tree has a node labelled \<^verbatim>\<open>fallback\<close> under the root, and the query
  \<^verbatim>\<open>fallback\<close> matches it with score 1.
\<close>

theorem fallback_in_tree:
  "outcome (build_response_tree scenario_kb (const_rng 0)) = Inr scenario_tree \<and>
   Node ''fallback'' ''I do not understand.'' [] \<in> set (children scenario_tree) \<and>
   bfs_loop (py_set (py_split (py_lower ''fallback''))) [scenario_tree] None 0 =
     (Some (Node ''fallback'' ''I do not understand.'' []), 1)"
  by code_simp

section \<open>The matcher always answers\<close>

text \<open>
  C2. With a fallback pool that exists, has at least one response and holds no empty
  string (the data model's invariant for \<^verbatim>\<open>fallback\<close>), \<^verbatim>\<open>get_response\<close> on a
  non-empty query raises nothing and returns a non-empty string, which is the bound
  response of a node of the tree or an element of the fallback pool.
\<close>

theorem get_response_total:
  assumes pool: "fallback_responses self = Inr pool" "pool \<noteq> []"
    and nonempty: "\<forall>r \<in> set pool. r \<noteq> []"
    and query: "query \<noteq> []"
  shows "\<exists>s g1. get_response self query g = Inr (s, g1) \<and> s \<noteq> [] \<and>
           (s \<in> response ` set (preorder (root self)) \<or> s \<in> set pool)"
proof -
  let ?qw = "py_set (py_split (py_lower query))"
  obtain b g1 where b: "bfs_search self query g = Inr (b, g1)"
    and b_from: "(\<exists>n \<in> set (bfs_order [root self]). response n \<noteq> [] \<and> b = response n) \<or> b \<in> set pool"
    using search_cases [OF pool, of "bfs_search self query g" ?qw "bfs_order [root self]" g]
      bfs_search_nonempty [OF query, of self g]
    by (auto simp: Let_def)
  obtain d g2 where d: "dfs_search self query g1 = Inr (d, g2)"
    and d_from: "(\<exists>n \<in> set (preorder (root self)). response n \<noteq> [] \<and> d = response n) \<or> d \<in> set pool"
    using search_cases [OF pool, of "dfs_search self query g1" ?qw "preorder (root self)" g1]
      dfs_search_nonempty [OF query, of self g1]
    by (auto simp: Let_def)
  have b_ok: "b \<noteq> [] \<and> (b \<in> response ` set (preorder (root self)) \<or> b \<in> set pool)"
    using b_from nonempty by (auto simp only: bfs_order_root)
  have d_ok: "d \<noteq> [] \<and> (d \<in> response ` set (preorder (root self)) \<or> d \<in> set pool)"
    using d_from nonempty by auto
  show ?thesis
    using b d b_ok d_ok by (simp add: get_response_def)
qed

theorem get_response_total_witness:
  "fallback_responses scenario_bot = Inr [''I do not understand.''] \<and>
   [''I do not understand.''] \<noteq> [] \<and> ''hello'' \<noteq> [] \<and>
   (\<exists>s g1. get_response scenario_bot ''hello'' (const_rng 0) = Inr (s, g1) \<and> s \<noteq> [] \<and>
      (s \<in> response ` set (preorder (root scenario_bot)) \<or> s \<in> set [''I do not understand.'']))"
proof -
  have p: "fallback_responses scenario_bot = Inr [''I do not understand.'']" by code_simp
  have ne: "[''I do not understand.''] \<noteq> []" by simp
  have r: "\<forall>r \<in> set [''I do not understand.'']. r \<noteq> []" by simp
  have q: "''hello'' \<noteq> []" by simp
  show ?thesis
    using p ne q get_response_total [OF p ne r q, of "const_rng 0"] by blast
qed

text \<open>
  C3. On the empty query both searches return the fallback pool's response at index 0:
  the result is the same for every tree put in place of the root (nothing is traversed)
  and the generator comes back untouched (nothing is drawn).
\<close>

theorem empty_query_short_circuit:
  assumes "fallback_responses self = Inr pool" and "pool \<noteq> []"
  shows "bfs_search (self\<lparr>root := t\<rparr>) [] g = Inr (pool ! 0, g) \<and>
         dfs_search (self\<lparr>root := t\<rparr>) [] g = Inr (pool ! 0, g)"
  using assms
  by (cases pool) (simp_all add: bfs_search_def dfs_search_def fallback_first_def)

theorem empty_query_short_circuit_witness:
  "fallback_responses scenario_bot = Inr [''I do not understand.''] \<and>
   [''I do not understand.''] \<noteq> [] \<and>
   bfs_search (scenario_bot\<lparr>root := Node ''x'' ''y'' []\<rparr>) [] (const_rng 1) =
     Inr ([''I do not understand.''] ! 0, const_rng 1) \<and>
   dfs_search (scenario_bot\<lparr>root := Node ''x'' ''y'' []\<rparr>) [] (const_rng 1) =
     Inr ([''I do not understand.''] ! 0, const_rng 1)"
proof -
  have p: "fallback_responses scenario_bot = Inr [''I do not understand.'']" by code_simp
  have ne: "[''I do not understand.''] \<noteq> []" by simp
  show ?thesis
    using p ne empty_query_short_circuit [OF p ne, of "Node ''x'' ''y'' []" "const_rng 1"] by blast
qed

section \<open>Scoring and the choice of the best node\<close>

text \<open>
  C4. In both loops the node just taken replaces the best candidate exactly when its
  response is non-empty and its score is strictly above the best score so far. Hence the
  loop started on the root ends with the earliest node, in its own visiting order, among
  the nodes with a non-empty response that reach the greatest score (and with no node
  when that score is 0): of two candidates with equal score the one visited first stays.
\<close>

theorem first_found_wins:
  "bfs_loop qw (n # queue) bm bs =
     (if response n \<noteq> [] \<and> bs < score qw n
      then bfs_loop qw (queue @ children n) (Some n) (score qw n)
      else bfs_loop qw (queue @ children n) bm bs) \<and>
   dfs_loop qw (stack @ [n]) bm bs =
     (if response n \<noteq> [] \<and> bs < score qw n
      then dfs_loop qw (stack @ rev (children n)) (Some n) (score qw n)
      else dfs_loop qw (stack @ rev (children n)) bm bs) \<and>
   bfs_loop qw [t] None 0 = earliest_best qw (bfs_order [t]) \<and>
   dfs_loop qw [t] None 0 = earliest_best qw (dfs_order [t])"
proof -
  have "dfs_loop qw (stack @ [n]) bm bs =
     (if response n \<noteq> [] \<and> bs < score qw n
      then dfs_loop qw (stack @ rev (children n)) (Some n) (score qw n)
      else dfs_loop qw (stack @ rev (children n)) bm bs)"
    by (subst dfs_loop.simps) (auto simp: Let_def)
  moreover have "bfs_loop qw (n # queue) bm bs =
     (if response n \<noteq> [] \<and> bs < score qw n
      then bfs_loop qw (queue @ children n) (Some n) (score qw n)
      else bfs_loop qw (queue @ children n) bm bs)"
    by auto
  ultimately show ?thesis
    by (simp only: bfs_loop_best dfs_loop_best dfs_order_root simp_thms)
qed

text \<open>
  C5. The score of a node is the number of distinct tokens of the lowercased query that
  occur in the node's lowercased label or in which the lowercased label occurs. A token
  counts once however it matches, so the score is at most the number of distinct tokens.
\<close>

theorem score_counts_distinct_tokens:
  "score (py_set (py_split (py_lower query))) n =
     card {w \<in> set (py_split (py_lower query)).
             occurs_in w (py_lower (keyword n)) \<or> occurs_in (py_lower (keyword n)) w} \<and>
   score (py_set (py_split (py_lower query))) n \<le> card (set (py_split (py_lower query)))"
proof -
  let ?ws = "py_split (py_lower query)"
  let ?P = "\<lambda>w. py_in w (py_lower (keyword n)) \<or> py_in (py_lower (keyword n)) w"
  have len: "score (py_set ?ws) n = length (filter ?P (remdups ?ws))"
    by (simp add: score_length py_set_def)
  have "distinct (filter ?P (remdups ?ws))"
    by simp
  then have "card (set (filter ?P (remdups ?ws))) = length (filter ?P (remdups ?ws))"
    by (rule distinct_card)
  then have "length (filter ?P (remdups ?ws)) = card (set (filter ?P (remdups ?ws)))"
    by (rule sym)
  also have "set (filter ?P (remdups ?ws)) =
      {w \<in> set ?ws. occurs_in w (py_lower (keyword n)) \<or> occurs_in (py_lower (keyword n)) w}"
    by (simp add: py_in_iff)
  finally have eq: "length (filter ?P (remdups ?ws)) =
      card {w \<in> set ?ws. occurs_in w (py_lower (keyword n)) \<or> occurs_in (py_lower (keyword n)) w}" .
  have "length (filter ?P (remdups ?ws)) \<le> length (remdups ?ws)"
    by (rule length_filter_le)
  also have "\<dots> = card (set ?ws)"
    by (simp add: length_remdups_card_conv)
  finally show ?thesis using len eq by simp
qed

section \<open>Reconciliation\<close>

text \<open>
  C6. \<^verbatim>\<open>get_response\<close> runs the breadth-first search, then the depth-first search,
  and returns the depth-first result when it is strictly longer, the breadth-first result
  otherwise (equal lengths included).
\<close>

theorem get_response_longer_wins:
  assumes "bfs_search self query g = Inr (bfs_response, g1)"
    and "dfs_search self query g1 = Inr (dfs_response, g2)"
  shows "get_response self query g =
           Inr (if length dfs_response > length bfs_response then dfs_response else bfs_response, g2)"
  using assms by (simp add: get_response_def)

theorem get_response_longer_wins_witness:
  "bfs_search tie_bot ''cat'' (const_rng 0) = Inr (''Meow.'', const_rng 0) \<and>
   dfs_search tie_bot ''cat'' (const_rng 0) = Inr (''Cats are great companions.'', const_rng 0) \<and>
   get_response tie_bot ''cat'' (const_rng 0) =
     Inr (if length ''Cats are great companions.'' > length ''Meow.''
          then ''Cats are great companions.'' else ''Meow.'', const_rng 0)"
proof -
  have bl: "bfs_loop (py_set (py_split (py_lower ''cat''))) [root tie_bot] None 0 =
              (Some (Node ''cat'' ''Meow.'' []), 1)"
    by code_simp
  have dl: "dfs_loop (py_set (py_split (py_lower ''cat''))) [root tie_bot] None 0 =
              (Some (Node ''cat'' ''Cats are great companions.'' []), 1)"
    by code_simp
  have b: "bfs_search tie_bot ''cat'' (const_rng 0) = Inr (''Meow.'', const_rng 0)"
    unfolding bfs_search_def Let_def bl by simp
  have d: "dfs_search tie_bot ''cat'' (const_rng 0) = Inr (''Cats are great companions.'', const_rng 0)"
    unfolding dfs_search_def Let_def dl by simp
  show ?thesis
    using b d get_response_longer_wins [OF b d] by blast
qed

section \<open>Depth-first order\<close>

text \<open>
  C7. The depth-first loop pops the last element of the stack and pushes the children of
  the popped node in reversed order, so the children come off the stack left to right:
  the nodes are visited in preorder, and the loop is the fold of the scoring step over
  the preorder of the tree.
\<close>

theorem dfs_visits_preorder:
  "dfs_order (stack @ [n]) = n # dfs_order (stack @ rev (children n)) \<and>
   dfs_order (stack @ rev (children n)) = concat (map preorder (children n)) @ dfs_order stack \<and>
   dfs_order [t] = preorder t \<and>
   dfs_loop qw [t] bm bs = foldl (consider_node qw) (bm, bs) (preorder t)"
proof -
  have "dfs_order (stack @ [n]) = n # dfs_order (stack @ rev (children n))"
    by (subst dfs_order.simps) simp
  moreover have "dfs_order (stack @ rev (children n)) = concat (map preorder (children n)) @ dfs_order stack"
    by (simp add: dfs_order_forest)
  ultimately show ?thesis
    by (simp only: dfs_order_root dfs_loop_fold simp_thms)
qed

section \<open>Determinism\<close>

text \<open>
  C8, as the code has it. For a fixed tree and a query that is empty, or for which some
  node with a non-empty response scores above 0, the result of each search does not
  depend on the random generator: two invocations return the same string.
\<close>

theorem matched_search_deterministic:
  assumes "query = [] \<or>
     (\<exists>n \<in> set (preorder (root self)).
        response n \<noteq> [] \<and> 0 < score (py_set (py_split (py_lower query))) n)"
  shows "outcome (bfs_search self query g1) = outcome (bfs_search self query g2) \<and>
         outcome (dfs_search self query g1) = outcome (dfs_search self query g2)"
proof (cases "query = []")
  case True
  then show ?thesis
    using fallback_first_outcome [of self g1 g2] by (simp add: bfs_search_def dfs_search_def)
next
  case False
  let ?qw = "py_set (py_split (py_lower query))"
  from assms False obtain n where n: "n \<in> set (preorder (root self))" "response n \<noteq> []" "0 < score ?qw n"
    by blast
  have d: "top_score ?qw (preorder (root self)) \<noteq> 0"
    using top_score_pos [OF n] .
  have "n \<in> set (bfs_order [root self])"
    using n(1) by (simp only: bfs_order_root)
  then have b: "top_score ?qw (bfs_order [root self]) \<noteq> 0"
    using top_score_pos n(2,3) by blast
  show ?thesis
    using b d by (simp add: bfs_search_nonempty [OF False] dfs_search_nonempty [OF False] Let_def outcome_def)
qed

theorem matched_search_deterministic_witness:
  "outcome (bfs_search two_fallbacks_bot ''hello'' (const_rng 0)) =
     outcome (bfs_search two_fallbacks_bot ''hello'' (const_rng 1)) \<and>
   outcome (dfs_search two_fallbacks_bot ''hello'' (const_rng 0)) =
     outcome (dfs_search two_fallbacks_bot ''hello'' (const_rng 1))"
proof -
  have h: "''hello'' = [] \<or>
     (\<exists>n \<in> set (preorder (root two_fallbacks_bot)).
        response n \<noteq> [] \<and> 0 < score (py_set (py_split (py_lower ''hello''))) n)"
    by code_simp
  show ?thesis
    using matched_search_deterministic [OF h, of "const_rng 0" "const_rng 1"] by blast
qed

text \<open>
  Against C8 for every query: when no node qualifies the search draws from the fallback
  pool, and two invocations on the same tree and query return different strings when
  the draws differ.
\<close>

theorem fallback_draw_differs:
  "outcome (minigpt_init two_fallbacks_kb (const_rng 0)) = Inr two_fallbacks_bot \<and>
   outcome (bfs_search two_fallbacks_bot ''xyzzy'' (const_rng 0)) = Inr ''Sorry?'' \<and>
   outcome (bfs_search two_fallbacks_bot ''xyzzy'' (const_rng 1)) = Inr ''Say that again.'' \<and>
   outcome (dfs_search two_fallbacks_bot ''xyzzy'' (const_rng 0)) = Inr ''Sorry?'' \<and>
   outcome (dfs_search two_fallbacks_bot ''xyzzy'' (const_rng 1)) = Inr ''Say that again.''"
  by code_simp

section \<open>Whitespace-only queries\<close>

text \<open>
  C9. A non-empty query made of whitespace only does not take the empty-query exit: its
  token list is empty, every node scores 0, and each search returns the element of the
  fallback pool at the index \<^verbatim>\<open>random.choice\<close> draws, advancing the generator.
\<close>

theorem whitespace_query_random_fallback:
  assumes query: "query \<noteq> []" and spaces: "\<forall>c \<in> set query. py_isspace c"
    and pool: "fallback_responses self = Inr pool" "pool \<noteq> []"
  shows "py_set (py_split (py_lower query)) = [] \<and>
         score (py_set (py_split (py_lower query))) n = 0 \<and>
         bfs_search self query g = Inr (pool ! (g 0 mod length pool), \<lambda>i. g (Suc i)) \<and>
         dfs_search self query g = Inr (pool ! (g 0 mod length pool), \<lambda>i. g (Suc i))"
proof -
  have words: "py_set (py_split (py_lower query)) = []"
    using spaces by (simp add: py_lower_spaces py_split_def py_split_spaces py_set_def)
  show ?thesis
    using fallback_random_member(1) [OF pool, of g]
    by (simp add: words score_no_words bfs_search_nonempty [OF query] dfs_search_nonempty [OF query]
        top_score_no_words)
qed

theorem whitespace_query_random_fallback_witness:
  "'' '' \<noteq> [] \<and> py_isspace CHR '' '' \<and>
   fallback_responses two_fallbacks_bot = Inr [''Sorry?'', ''Say that again.''] \<and>
   [''Sorry?'', ''Say that again.''] \<noteq> [] \<and>
   py_set (py_split (py_lower '' '')) = [] \<and>
   score (py_set (py_split (py_lower '' ''))) (root two_fallbacks_bot) = 0 \<and>
   bfs_search two_fallbacks_bot '' '' (const_rng 1) =
     Inr ([''Sorry?'', ''Say that again.''] ! (const_rng 1 0 mod length [''Sorry?'', ''Say that again.'']),
          \<lambda>i. const_rng 1 (Suc i)) \<and>
   dfs_search two_fallbacks_bot '' '' (const_rng 1) =
     Inr ([''Sorry?'', ''Say that again.''] ! (const_rng 1 0 mod length [''Sorry?'', ''Say that again.'']),
          \<lambda>i. const_rng 1 (Suc i)) \<and>
   [''Sorry?'', ''Say that again.''] ! (const_rng 1 0 mod length [''Sorry?'', ''Say that again.'']) =
     ''Say that again.''"
proof -
  have q: "'' '' \<noteq> []" by simp
  have sp1: "py_isspace CHR '' ''" by code_simp
  then have sp: "\<forall>c \<in> set '' ''. py_isspace c" by simp
  have p: "fallback_responses two_fallbacks_bot = Inr [''Sorry?'', ''Say that again.'']" by code_simp
  have ne: "[''Sorry?'', ''Say that again.''] \<noteq> []" by simp
  have pick: "[''Sorry?'', ''Say that again.''] ! (const_rng 1 0 mod length [''Sorry?'', ''Say that again.'']) =
     ''Say that again.''"
    by (simp add: const_rng_def)
  show ?thesis
    using q sp1 p ne pick
      whitespace_query_random_fallback [OF q sp p ne, of "root two_fallbacks_bot" "const_rng 1"]
    by blast
qed

section \<open>Agreement of the two searches\<close>

text \<open>
  C10. For a non-empty query, when one node with a non-empty response scores above 0 and
  strictly above every other node of the tree, both searches return that node's response
  and so does \<^verbatim>\<open>get_response\<close>, without a draw.
\<close>

theorem unique_best_agree:
  assumes query: "query \<noteq> []"
    and n: "n \<in> set (preorder (root self))" and r: "response n \<noteq> []"
    and pos: "0 < score (py_set (py_split (py_lower query))) n"
    and uniq: "\<forall>m \<in> set (preorder (root self)). m \<noteq> n \<longrightarrow>
                 score (py_set (py_split (py_lower query))) m < score (py_set (py_split (py_lower query))) n"
  shows "bfs_search self query g = Inr (response n, g) \<and>
         dfs_search self query g = Inr (response n, g) \<and>
         get_response self query g = Inr (response n, g)"
proof -
  let ?qw = "py_set (py_split (py_lower query))"
  have d: "earliest_best ?qw (preorder (root self)) = (Some n, score ?qw n)"
    using earliest_best_unique [OF n r pos uniq] .
  have nb: "n \<in> set (bfs_order [root self])"
    using n by (simp only: bfs_order_root)
  have ub: "\<forall>m \<in> set (bfs_order [root self]). m \<noteq> n \<longrightarrow> score ?qw m < score ?qw n"
    using uniq by (simp only: bfs_order_root)
  have b: "earliest_best ?qw (bfs_order [root self]) = (Some n, score ?qw n)"
    using earliest_best_unique [OF nb r pos ub] .
  have bs: "bfs_search self query g = Inr (response n, g)"
    using query pos unfolding bfs_search_def Let_def bfs_loop_best b by simp
  have ds: "dfs_search self query g = Inr (response n, g)"
    using query pos unfolding dfs_search_def Let_def dfs_loop_best d by simp
  show ?thesis
    by (simp add: bs ds get_response_def)
qed

theorem unique_best_agree_witness:
  "''hello'' \<noteq> [] \<and>
   Node ''hello'' ''Hi there!'' [] \<in> set (preorder (root scenario_bot)) \<and>
   response (Node ''hello'' ''Hi there!'' []) \<noteq> [] \<and>
   0 < score (py_set (py_split (py_lower ''hello''))) (Node ''hello'' ''Hi there!'' []) \<and>
   bfs_search scenario_bot ''hello'' (const_rng 0) = Inr (response (Node ''hello'' ''Hi there!'' []), const_rng 0) \<and>
   dfs_search scenario_bot ''hello'' (const_rng 0) = Inr (response (Node ''hello'' ''Hi there!'' []), const_rng 0) \<and>
   get_response scenario_bot ''hello'' (const_rng 0) = Inr (response (Node ''hello'' ''Hi there!'' []), const_rng 0)"
proof -
  have q: "''hello'' \<noteq> []" by simp
  have n: "Node ''hello'' ''Hi there!'' [] \<in> set (preorder (root scenario_bot))" by code_simp
  have r: "response (Node ''hello'' ''Hi there!'' []) \<noteq> []" by simp
  have pos: "0 < score (py_set (py_split (py_lower ''hello''))) (Node ''hello'' ''Hi there!'' [])"
    by code_simp
  have uniq: "\<forall>m \<in> set (preorder (root scenario_bot)). m \<noteq> Node ''hello'' ''Hi there!'' [] \<longrightarrow>
      score (py_set (py_split (py_lower ''hello''))) m
        < score (py_set (py_split (py_lower ''hello''))) (Node ''hello'' ''Hi there!'' [])"
    by code_simp
  show ?thesis
    using q n r pos unique_best_agree [OF q n r pos uniq, of "const_rng 0"] by blast
qed

end
